theory Spec2Isabelle
  imports Main
begin

section \<open>JavaScript strings\<close>

text \<open>
  A JavaScript string is a sequence of 16-bit code units. The regular expressions of the
  script carry no \<open>u\<close> flag, so they work on code units as well. A code unit is given
  by its number; the script does no arithmetic on code units that could leave the
  16-bit range, and a number beyond it is in none of the classes below.
\<close>

type_synonym cu = nat
type_synonym jsstring = "cu list"

definition js :: "string \<Rightarrow> jsstring" where
  "js s = map of_char s"

definition hyphen :: cu where
  "hyphen = 0x2D"

text \<open>
  The class \<open>\s\<close> of a JavaScript regular expression, which is also what \<open>trim()\<close>
  removes: the white space and line terminator code points.
\<close>

definition isSpace :: "cu \<Rightarrow> bool" where
  "isSpace c \<longleftrightarrow>
     c \<in> {0x09, 0x0A, 0x0B, 0x0C, 0x0D, 0x20, 0xA0, 0x1680,
          0x2028, 0x2029, 0x202F, 0x205F, 0x3000, 0xFEFF}
     \<or> (0x2000 \<le> c \<and> c \<le> 0x200A)"

text \<open>The class \<open>[a-zA-Z0-9]\<close>.\<close>

definition isAlnum :: "cu \<Rightarrow> bool" where
  "isAlnum c \<longleftrightarrow>
     (0x61 \<le> c \<and> c \<le> 0x7A) \<or> (0x41 \<le> c \<and> c \<le> 0x5A) \<or> (0x30 \<le> c \<and> c \<le> 0x39)"

text \<open>The class \<open>\d\<close>, the class \<open>\w\<close> and the class of \<open>.\<close> (no line terminator).\<close>

definition isDigit :: "cu \<Rightarrow> bool" where
  "isDigit c \<longleftrightarrow> 0x30 \<le> c \<and> c \<le> 0x39"

definition isWord :: "cu \<Rightarrow> bool" where
  "isWord c \<longleftrightarrow> isAlnum c \<or> c = 0x5F"

definition isDot :: "cu \<Rightarrow> bool" where
  "isDot c \<longleftrightarrow> c \<notin> {0x0A, 0x0D, 0x2028, 0x2029}"

text \<open>
  The class \<open>[/\\|:;_~+&,>]\<close> of the first \<open>replace\<close> of \<open>formatTitle\<close>: slash, backslash,
  bar, colon, semicolon, underscore, tilde, plus, ampersand, comma, greater-than.
\<close>

definition isSeparatorPunct :: "cu \<Rightarrow> bool" where
  "isSeparatorPunct c \<longleftrightarrow>
     c \<in> {0x2F, 0x5C, 0x7C, 0x3A, 0x3B, 0x5F, 0x7E, 0x2B, 0x26, 0x2C, 0x3E}"

text \<open>
  \<open>s.replace(/[P]+/g, r)\<close>: every maximal run of code units of the class is replaced
  by \<open>r\<close>; the other code units are copied.
\<close>

function replaceRuns :: "(cu \<Rightarrow> bool) \<Rightarrow> jsstring \<Rightarrow> jsstring \<Rightarrow> jsstring" where
  "replaceRuns P r [] = []"
| "replaceRuns P r (c # cs) =
     (if P c then r @ replaceRuns P r (dropWhile P cs) else c # replaceRuns P r cs)"
  by pat_completeness auto
termination
  by (relation "measure (\<lambda>(P, r, s). length s)")
     (auto simp: length_dropWhile_le less_Suc_eq_le)

text \<open>\<open>s.trim()\<close>.\<close>

definition trim :: "jsstring \<Rightarrow> jsstring" where
  "trim s = rev (dropWhile isSpace (rev (dropWhile isSpace s)))"

text \<open>
  \<open>s.split(/[S]+/)\<close>: the pieces of \<open>s\<close> between the maximal runs of separators. A
  string that starts (ends) with a separator yields an empty first (last) piece, and
  the empty string yields one empty piece.
\<close>

function splitRuns :: "(cu \<Rightarrow> bool) \<Rightarrow> jsstring \<Rightarrow> jsstring list" where
  "splitRuns sep s =
     (if dropWhile (\<lambda>c. \<not> sep c) s = [] then [s]
      else takeWhile (\<lambda>c. \<not> sep c) s
           # splitRuns sep (dropWhile sep (dropWhile (\<lambda>c. \<not> sep c) s)))"
  by pat_completeness auto
termination
proof (relation "measure (\<lambda>(sep, s). length s)")
  show "wf (measure (\<lambda>(sep :: cu \<Rightarrow> bool, s :: jsstring). length s))"
    by simp
next
  fix sep :: "cu \<Rightarrow> bool" and s :: jsstring
  assume ne: "dropWhile (\<lambda>c. \<not> sep c) s \<noteq> []"
  then obtain c cs where eq: "dropWhile (\<lambda>c. \<not> sep c) s = c # cs"
    by (cases "dropWhile (\<lambda>c. \<not> sep c) s") auto
  have "sep c"
    using hd_dropWhile [OF ne] eq by simp
  then have "length (dropWhile sep (c # cs)) \<le> length cs"
    by (simp add: length_dropWhile_le)
  moreover have "length (c # cs) \<le> length s"
    using length_dropWhile_le [of "\<lambda>c. \<not> sep c" s] eq by simp
  ultimately show "((sep, dropWhile sep (dropWhile (\<lambda>c. \<not> sep c) s)), (sep, s))
      \<in> measure (\<lambda>(sep, s). length s)"
    using eq by simp
qed

declare splitRuns.simps [simp del]

text \<open>
  \<open>s.toUpperCase()\<close>, code unit by code unit, which is what it is on the one-unit
  strings \<open>charAt(0)\<close> returns. ASCII is mapped here; the upper-case form of a code unit
  beyond ASCII comes from the Unicode tables of the engine, the parameter \<open>uc\<close>.
\<close>

definition toUpperCase :: "(cu \<Rightarrow> jsstring) \<Rightarrow> jsstring \<Rightarrow> jsstring" where
  "toUpperCase uc s =
     concat (map (\<lambda>c. if 0x61 \<le> c \<and> c \<le> 0x7A then [c - 0x20]
                       else if c < 0x80 then [c] else uc c) s)"

text \<open>\<open>ws.join(sep)\<close>.\<close>

fun join :: "jsstring \<Rightarrow> jsstring list \<Rightarrow> jsstring" where
  "join sep [] = []"
| "join sep [w] = w"
| "join sep (w # ws) = w @ sep @ join sep ws"

section \<open>The formatter\<close>

text \<open>
  \<open>formatTitle\<close> of the script, read from the last call of the chain to the first:
  \<open>join("-")\<close>, \<open>map\<close> (upper-case first code unit), \<open>filter(Boolean)\<close>,
  \<open>split(/[\s-]+/)\<close>, \<open>trim()\<close>, \<open>replace(/\s+/g, " ")\<close>,
  \<open>replace(/[^a-zA-Z0-9\s-]/g, "")\<close>, \<open>replace(/[/\\|:;_~+&,>]+/g, " ")\<close>.
\<close>

definition formatTitle :: "(cu \<Rightarrow> jsstring) \<Rightarrow> jsstring \<Rightarrow> jsstring" where
  "formatTitle uc title =
     join (js ''-'')
       (map (\<lambda>word. toUpperCase uc (take 1 word) @ drop 1 word)
         (filter (\<lambda>w. w \<noteq> [])
           (splitRuns (\<lambda>c. isSpace c \<or> c = hyphen)
             (trim
               (replaceRuns isSpace (js '' '')
                 (filter (\<lambda>c. isAlnum c \<or> isSpace c \<or> c = hyphen)
                   (replaceRuns isSeparatorPunct (js '' '') title)))))))"

text \<open>
  The earlier draft of \<open>formatTitle\<close> kept in the repository: the same chain without
  the first \<open>replace\<close>, so that punctuation is stripped and never becomes a space.
\<close>

definition formatTitle_draft :: "(cu \<Rightarrow> jsstring) \<Rightarrow> jsstring \<Rightarrow> jsstring" where
  "formatTitle_draft uc title =
     join (js ''-'')
       (map (\<lambda>word. toUpperCase uc (take 1 word) @ drop 1 word)
         (filter (\<lambda>w. w \<noteq> [])
           (splitRuns (\<lambda>c. isSpace c \<or> c = hyphen)
             (trim
               (replaceRuns isSpace (js '' '')
                 (filter (\<lambda>c. isAlnum c \<or> isSpace c \<or> c = hyphen) title))))))"

definition BRANCH_PREFIX :: jsstring where
  "BRANCH_PREFIX = js ''feature/''"

definition buildBranchName :: "(cu \<Rightarrow> jsstring) \<Rightarrow> jsstring \<Rightarrow> jsstring \<Rightarrow> jsstring" where
  "buildBranchName uc ident title = BRANCH_PREFIX @ ident @ js ''-'' @ formatTitle uc title"

section \<open>The extractor\<close>

text \<open>
  The regular expressions of the script are sequences of greedily quantified character
  classes, anchored at both ends. \<open>matchSeq\<close> is the backtracking matcher on such a
  sequence: each item tries its longest run first and gives code units back one at a
  time; the result is the list of captured groups of the first way that reaches the
  end of the string.
\<close>

datatype quant = Once | OneOrMore | ZeroOrMore

type_synonym item = "(cu \<Rightarrow> bool) \<times> quant \<times> bool"

fun lens :: "(cu \<Rightarrow> bool) \<Rightarrow> quant \<Rightarrow> jsstring \<Rightarrow> nat list" where
  "lens P Once s = (case s of [] \<Rightarrow> [] | c # cs \<Rightarrow> if P c then [1] else [])"
| "lens P OneOrMore s = rev [1 ..< Suc (length (takeWhile P s))]"
| "lens P ZeroOrMore s = rev [0 ..< Suc (length (takeWhile P s))]"

fun firstSome :: "'a option list \<Rightarrow> 'a option" where
  "firstSome [] = None"
| "firstSome (Some x # rs) = Some x"
| "firstSome (None # rs) = firstSome rs"

fun matchSeq :: "item list \<Rightarrow> jsstring \<Rightarrow> jsstring list option" where
  "matchSeq [] s = (if s = [] then Some [] else None)"
| "matchSeq ((P, q, cap) # its) s =
     firstSome
       (map (\<lambda>n. case matchSeq its (drop n s) of
                    None \<Rightarrow> None
                  | Some caps \<Rightarrow> Some (if cap then take n s # caps else caps))
            (lens P q s))"

text \<open>\<open>/^\w+\s+(\d+):\s*(.+)$/\<close>\<close>

definition linkTextPattern :: "item list" where
  "linkTextPattern =
     [(isWord, OneOrMore, False), (isSpace, OneOrMore, False), (isDigit, OneOrMore, True),
      (\<lambda>c. c = 0x3A, Once, False), (isSpace, ZeroOrMore, False), (isDot, OneOrMore, True)]"

text \<open>\<open>h.includes(pat)\<close>, the test behind the attribute selector \<open>[href*="pat"]\<close>.\<close>

fun includesSub :: "jsstring \<Rightarrow> jsstring \<Rightarrow> bool" where
  "includesSub pat [] = (pat = [])"
| "includesSub pat (c # cs) = (take (length pat) (c # cs) = pat \<or> includesSub pat cs)"

section \<open>The dialog\<close>

text \<open>
  Of the page, the model keeps what the script reads and writes: the anchors of the
  extensions region in document order, and of the branch-name input its value, the
  events dispatched on it, focus and selection, and whether the ancestors that
  \<open>addCopyButton\<close> looks for are there.
\<close>

record anchor =
  href :: jsstring
  textContent :: jsstring

datatype domEvent = InputEvent | ChangeEvent

record inputElement =
  inputValue :: jsstring
  dispatched :: "domEvent list"
  focused :: bool
  selected :: bool
  flexColumn :: bool
  boltTextfield :: bool
  clipboardButton :: bool

record dialog =
  itemNameInput :: "inputElement option"
  extensionsRegion :: "anchor list option"

record workItem =
  item_id :: jsstring
  item_title :: jsstring

definition getWorkItemFromDialog :: "dialog \<Rightarrow> workItem option" where
  "getWorkItemFromDialog d =
     (case extensionsRegion d of
        None \<Rightarrow> None
      | Some region \<Rightarrow>
          (case find (\<lambda>a. includesSub (js ''_workitems/edit/'') (href a)) region of
             None \<Rightarrow> None
           | Some link \<Rightarrow>
               (case matchSeq linkTextPattern (trim (textContent link)) of
                  Some [m1, m2] \<Rightarrow> Some \<lparr>item_id = m1, item_title = trim m2\<rparr>
                | _ \<Rightarrow> None)))"

definition setInputValue :: "inputElement \<Rightarrow> jsstring \<Rightarrow> inputElement" where
  "setInputValue inp v =
     inp\<lparr>inputValue := v, dispatched := dispatched inp @ [InputEvent, ChangeEvent]\<rparr>"

text \<open>
  \<open>addCopyButton\<close> returns at once without a \<open>.flex-column\<close> ancestor or when that
  ancestor holds a copy button already; the button it builds is attached only under a
  \<open>.bolt-textfield\<close> ancestor. It does not touch the value, focus or selection.
\<close>

definition addCopyButton :: "inputElement \<Rightarrow> inputElement" where
  "addCopyButton inp =
     (if \<not> flexColumn inp \<or> clipboardButton inp then inp
      else if boltTextfield inp then inp\<lparr>clipboardButton := True\<rparr> else inp)"

definition fillBranchName :: "(cu \<Rightarrow> jsstring) \<Rightarrow> inputElement \<Rightarrow> workItem \<Rightarrow> inputElement" where
  "fillBranchName uc inp wi =
     (if trim (inputValue inp) \<noteq> [] then inp
      else (addCopyButton
              (setInputValue inp (buildBranchName uc (item_id wi) (item_title wi))))
           \<lparr>focused := True, selected := True\<rparr>)"

section \<open>The waiter\<close>

text \<open>
  One dialog episode: the page as far as the script sees it, the variables of the
  closure of \<open>waitForWorkItem\<close> (\<open>settled\<close>, whether the mutation observer is
  connected, the time at which the pending timeout is due), the clock, and a counter
  of the calls of \<open>fillBranchName\<close>, which is not in the script and only records them.
\<close>

record episode =
  dialog :: dialog
  branchInput :: inputElement
  settled :: bool
  observing :: bool
  timer :: "nat option"
  now :: nat
  fillCalls :: nat

definition TIMEOUT_MS :: nat where
  "TIMEOUT_MS = 10000"

text \<open>The callback of \<open>workItemObserver\<close>.\<close>

definition observerCallback :: "(cu \<Rightarrow> jsstring) \<Rightarrow> episode \<Rightarrow> episode" where
  "observerCallback uc s =
     (if settled s then s
      else (case getWorkItemFromDialog (dialog s) of
              None \<Rightarrow> s
            | Some wi \<Rightarrow>
                s\<lparr>settled := True, observing := False,
                  branchInput := fillBranchName uc (branchInput s) wi,
                  fillCalls := Suc (fillCalls s)\<rparr>))"

text \<open>The callback given to \<open>setTimeout\<close>.\<close>

definition timeoutCallback :: "episode \<Rightarrow> episode" where
  "timeoutCallback s = (if \<not> settled s then s\<lparr>settled := True, observing := False\<rparr> else s)"

text \<open>
  \<open>waitForWorkItem\<close>, called at time \<open>t\<close>. When the work item is there already the
  function returns after the fill: no closure variable, observer or timer exists.
\<close>

definition waitForWorkItem :: "(cu \<Rightarrow> jsstring) \<Rightarrow> nat \<Rightarrow> dialog \<Rightarrow> inputElement \<Rightarrow> episode" where
  "waitForWorkItem uc t d inp =
     (case getWorkItemFromDialog d of
        Some workItem \<Rightarrow>
          \<lparr>dialog = d, branchInput = fillBranchName uc inp workItem, settled = False,
           observing = False, timer = None, now = t, fillCalls = 1\<rparr>
      | None \<Rightarrow>
          \<lparr>dialog = d, branchInput = inp, settled = False,
           observing = True, timer = Some (t + TIMEOUT_MS), now = t, fillCalls = 0\<rparr>)"

definition handleBranchDialog :: "(cu \<Rightarrow> jsstring) \<Rightarrow> nat \<Rightarrow> dialog \<Rightarrow> episode option" where
  "handleBranchDialog uc t d =
     (case itemNameInput d of
        None \<Rightarrow> None
      | Some inp \<Rightarrow>
          if trim (inputValue inp) \<noteq> [] then None
          else (case extensionsRegion d of
                  None \<Rightarrow> None
                | Some region \<Rightarrow> Some (waitForWorkItem uc t d inp)))"

text \<open>
  What the event loop can do to an episode: time passes; the page changes the content
  of the extensions region, which runs the observer's callback when the observer is
  connected; the pending timeout is dispatched, which the browser does not do before
  it is due; the user types into the field.
\<close>

datatype event = Advance nat | Mutate "anchor list" | TimerFires | UserTypes jsstring

fun step :: "(cu \<Rightarrow> jsstring) \<Rightarrow> episode \<Rightarrow> event \<Rightarrow> episode" where
  "step uc s (Advance n) = s\<lparr>now := now s + n\<rparr>"
| "step uc s (Mutate region) =
     (if observing s
      then observerCallback uc (s\<lparr>dialog := (dialog s)\<lparr>extensionsRegion := Some region\<rparr>\<rparr>)
      else s\<lparr>dialog := (dialog s)\<lparr>extensionsRegion := Some region\<rparr>\<rparr>)"
| "step uc s TimerFires =
     (case timer s of
        None \<Rightarrow> s
      | Some due \<Rightarrow> if due \<le> now s then timeoutCallback (s\<lparr>timer := None\<rparr>) else s)"
| "step uc s (UserTypes v) = s\<lparr>branchInput := (branchInput s)\<lparr>inputValue := v\<rparr>\<rparr>"

definition run :: "(cu \<Rightarrow> jsstring) \<Rightarrow> episode \<Rightarrow> event list \<Rightarrow> episode" where
  "run uc s es = foldl (step uc) s es"

section \<open>Notions used in the proofs\<close>

text \<open>
  The words of a title, before they are capitalised and joined; the function that
  \<open>formatTitle\<close> maps over them; and what all of them turn out to be: non-empty and
  alphanumeric.
\<close>

definition titleWords :: "jsstring \<Rightarrow> jsstring list" where
  "titleWords title =
     filter (\<lambda>w. w \<noteq> [])
       (splitRuns (\<lambda>c. isSpace c \<or> c = hyphen)
         (trim
           (replaceRuns isSpace (js '' '')
             (filter (\<lambda>c. isAlnum c \<or> isSpace c \<or> c = hyphen)
               (replaceRuns isSeparatorPunct (js '' '') title)))))"

definition capitalize :: "(cu \<Rightarrow> jsstring) \<Rightarrow> jsstring \<Rightarrow> jsstring" where
  "capitalize uc word = toUpperCase uc (take 1 word) @ drop 1 word"

definition cleanWord :: "jsstring \<Rightarrow> bool" where
  "cleanWord w \<longleftrightarrow> w \<noteq> [] \<and> list_all isAlnum w"

text \<open>
  A dialog as the page shows it at first: an empty branch-name field and an extensions
  region without content; and the link that the page loads into the region later.
\<close>

definition exampleLink :: anchor where
  "exampleLink =
     \<lparr>href = js ''/proj/_workitems/edit/100'', textContent = js ''Task 100: Add login page''\<rparr>"

definition emptyInput :: inputElement where
  "emptyInput = \<lparr>inputValue = [], dispatched = [], focused = False, selected = False,
     flexColumn = True, boltTextfield = True, clipboardButton = False\<rparr>"

definition exampleDialog :: dialog where
  "exampleDialog = \<lparr>itemNameInput = Some emptyInput, extensionsRegion = Some []\<rparr>"

text \<open>The invariant of an episode in which no content has matched so far.\<close>

definition waiting :: "nat \<Rightarrow> episode \<Rightarrow> bool" where
  "waiting t s \<longleftrightarrow>
     fillCalls s = 0 \<and> t \<le> now s \<and>
     (if settled s then \<not> observing s \<and> timer s = None \<and> t + TIMEOUT_MS \<le> now s
      else observing s \<and> timer s = Some (t + TIMEOUT_MS))"

text \<open>An event that brings no matching content into the region.\<close>

definition noMatch :: "event \<Rightarrow> bool" where
  "noMatch e \<longleftrightarrow>
     (case e of
        Mutate region \<Rightarrow>
          getWorkItemFromDialog \<lparr>itemNameInput = None, extensionsRegion = Some region\<rparr> = None
      | _ \<Rightarrow> True)"

text \<open>Fills happen only while the observer is connected, and a fill disconnects it.\<close>

definition filledOnce :: "episode \<Rightarrow> bool" where
  "filledOnce s \<longleftrightarrow> fillCalls s \<le> 1 \<and> (observing s \<longrightarrow> fillCalls s = 0)"

text \<open>
  What it means for a string to match a sequence of items, without reference to the
  order in which a matcher tries the ways: the string is cut into one segment per item,
  and each segment suits its item.
\<close>

definition fits :: "item \<Rightarrow> jsstring \<Rightarrow> bool" where
  "fits it seg \<longleftrightarrow>
     (case it of (P, q, cap) \<Rightarrow>
        list_all P seg \<and>
        (case q of Once \<Rightarrow> length seg = 1 | OneOrMore \<Rightarrow> seg \<noteq> [] | ZeroOrMore \<Rightarrow> True))"

fun captures :: "item list \<Rightarrow> jsstring list \<Rightarrow> jsstring list" where
  "captures ((P, q, cap) # its) (seg # segs) =
     (if cap then seg # captures its segs else captures its segs)"
| "captures its segs = []"

text \<open>
  The pattern of the specification for the link text: a word token, white space,
  digits, a colon, optional white space, free text; the digits are the identifier and
  the trimmed free text is the label. The class of the code units of the free text is
  a parameter.
\<close>

definition specLinkText :: "(cu \<Rightarrow> bool) \<Rightarrow> jsstring \<Rightarrow> jsstring \<Rightarrow> jsstring \<Rightarrow> bool" where
  "specLinkText free text ident label \<longleftrightarrow>
     (\<exists>w ws ows ft.
        text = w @ ws @ ident @ [0x3A] @ ows @ ft
        \<and> w \<noteq> [] \<and> list_all isWord w
        \<and> ws \<noteq> [] \<and> list_all isSpace ws
        \<and> ident \<noteq> [] \<and> list_all isDigit ident
        \<and> list_all isSpace ows
        \<and> ft \<noteq> [] \<and> list_all free ft
        \<and> label = trim ft)"

text \<open>The class of all code units: free text read as any text at all.\<close>

definition anyUnit :: "cu \<Rightarrow> bool" where
  "anyUnit c = True"

text \<open>
  For the examples: an upper-case table that leaves every code unit beyond ASCII as it
  is, and a dialog whose region holds one work-item link with a given text.
\<close>

definition asciiOnly :: "cu \<Rightarrow> jsstring" where
  "asciiOnly c = [c]"

definition linkWithText :: "jsstring \<Rightarrow> dialog" where
  "linkWithText text =
     \<lparr>itemNameInput = None,
      extensionsRegion = Some [\<lparr>href = js ''/proj/_workitems/edit/1'', textContent = text\<rparr>]\<rparr>"

section \<open>Character classes and string functions\<close>

lemma alnum_not_space: "isAlnum c \<Longrightarrow> \<not> isSpace c"
  by (auto simp: isAlnum_def isSpace_def)

lemma alnum_not_punct: "isAlnum c \<Longrightarrow> \<not> isSeparatorPunct c"
  by (auto simp: isAlnum_def isSeparatorPunct_def)

lemma alnum_not_hyphen: "isAlnum c \<Longrightarrow> c \<noteq> hyphen"
  by (auto simp: isAlnum_def hyphen_def)

lemma space_not_punct: "isSpace c \<Longrightarrow> \<not> isSeparatorPunct c"
  by (auto simp: isSpace_def isSeparatorPunct_def)

lemma space_not_word: "isSpace c \<Longrightarrow> \<not> isWord c"
  by (auto simp: isSpace_def isWord_def isAlnum_def)

lemma digit_not_space: "isDigit c \<Longrightarrow> \<not> isSpace c"
  by (auto simp: isSpace_def isDigit_def)

lemma colon_not_digit: "\<not> isDigit 0x3A"
  by (simp add: isDigit_def)

lemma hyphen_not_space: "\<not> isSpace hyphen"
  by (simp add: isSpace_def hyphen_def)

lemma hyphen_not_punct: "\<not> isSeparatorPunct hyphen"
  by (simp add: isSeparatorPunct_def hyphen_def)

lemma space_is_space: "isSpace 0x20"
  by (simp add: isSpace_def)

lemma js_space: "js '' '' = [0x20]"
  by (simp add: js_def)

lemma js_hyphen: "js ''-'' = [hyphen]"
  by (simp add: js_def hyphen_def)

lemma upper_alnum:
  assumes "isAlnum c"
  shows "\<exists>d. toUpperCase uc [c] = [d] \<and> isAlnum d \<and> toUpperCase uc [d] = [d]"
proof (cases "0x61 \<le> c \<and> c \<le> 0x7A")
  case True
  then have 1: "toUpperCase uc [c] = [c - 0x20]"
    by (simp add: toUpperCase_def)
  from True have 2: "isAlnum (c - 0x20)"
    by (auto simp: isAlnum_def)
  from True have 3: "toUpperCase uc [c - 0x20] = [c - 0x20]"
    by (auto simp: toUpperCase_def)
  from 1 2 3 show ?thesis by blast
next
  case False
  with assms have "toUpperCase uc [c] = [c]"
    by (auto simp: toUpperCase_def isAlnum_def)
  with assms show ?thesis by blast
qed

lemma replaceRuns_none: "\<forall>c\<in>set s. \<not> P c \<Longrightarrow> replaceRuns P r s = s"
  by (induction s) auto

lemma replaceRuns_all: "\<forall>c\<in>set s. P c \<Longrightarrow> s \<noteq> [] \<Longrightarrow> replaceRuns P r s = r"
proof (cases s)
  case Nil
  assume "s \<noteq> []" with Nil show ?thesis by simp
next
  case (Cons a list)
  assume "\<forall>c\<in>set s. P c"
  with Cons have a: "P a" and d: "dropWhile P list = []" by auto
  show ?thesis unfolding Cons by (simp add: a d del: dropWhile_eq_Nil_conv)
qed

lemma set_replaceRuns: "set (replaceRuns P r s) \<subseteq> set r \<union> set s"
proof (induction P r s rule: replaceRuns.induct)
  case (1 P r)
  then show ?case by simp
next
  case (2 P r c cs)
  show ?case
  proof (cases "P c")
    case True
    have "set (dropWhile P cs) \<subseteq> set cs" by (auto dest: set_dropWhileD)
    with 2(1)[OF True] True show ?thesis by auto
  next
    case False
    with 2(2)[OF False] show ?thesis by auto
  qed
qed

lemma set_trim: "set (trim s) \<subseteq> set s"
  unfolding trim_def by (auto dest!: set_dropWhileD)

lemma trim_none: "\<forall>c\<in>set s. \<not> isSpace c \<Longrightarrow> trim s = s"
proof -
  assume a: "\<forall>c\<in>set s. \<not> isSpace c"
  have 1: "dropWhile isSpace s = s" using a by (cases s) auto
  have "\<forall>c\<in>set (rev s). \<not> isSpace c" using a by simp
  then have "dropWhile isSpace (rev s) = rev s" by (cases "rev s") auto
  with 1 show ?thesis by (simp add: trim_def)
qed

lemma trim_after_spaces:
  assumes "list_all isSpace o1" "list_all isSpace o2" "o1 @ f1 = o2 @ f2"
  shows "trim f1 = trim f2"
proof -
  have "dropWhile isSpace (o1 @ f1) = dropWhile isSpace f1"
    using assms(1) by (simp add: list_all_iff dropWhile_append2)
  moreover have "dropWhile isSpace (o2 @ f2) = dropWhile isSpace f2"
    using assms(2) by (simp add: list_all_iff dropWhile_append2)
  ultimately have "dropWhile isSpace f1 = dropWhile isSpace f2"
    using assms(3) by simp
  then show ?thesis by (simp add: trim_def)
qed

lemma splitRuns_last: "dropWhile (\<lambda>c. \<not> sep c) s = [] \<Longrightarrow> splitRuns sep s = [s]"
  by (subst splitRuns.simps) (simp only: if_True refl)

lemma splitRuns_more:
  assumes "dropWhile (\<lambda>c. \<not> sep c) s \<noteq> []"
  shows "splitRuns sep s = takeWhile (\<lambda>c. \<not> sep c) s
           # splitRuns sep (dropWhile sep (dropWhile (\<lambda>c. \<not> sep c) s))"
  by (subst splitRuns.simps) (simp only: assms if_False)

lemma splitRuns_tokens:
  "w \<in> set (splitRuns sep s) \<Longrightarrow> c \<in> set w \<Longrightarrow> c \<in> set s \<and> \<not> sep c"
proof (induction sep s rule: splitRuns.induct)
  case (1 sep s)
  show ?case
  proof (cases "dropWhile (\<lambda>c. \<not> sep c) s = []")
    case True
    with 1(2) have "w = s" by (simp only: splitRuns_last) simp
    moreover from True have "\<forall>x\<in>set s. \<not> sep x" by simp
    ultimately show ?thesis using 1(3) by simp
  next
    case False
    from 1(2) have "w = takeWhile (\<lambda>c. \<not> sep c) s
      \<or> w \<in> set (splitRuns sep (dropWhile sep (dropWhile (\<lambda>c. \<not> sep c) s)))"
      unfolding splitRuns_more [OF False] by simp
    then show ?thesis
    proof
      assume "w = takeWhile (\<lambda>c. \<not> sep c) s"
      with 1(3) have "c \<in> set (takeWhile (\<lambda>c. \<not> sep c) s)" by simp
      then show ?thesis using set_takeWhileD by fastforce
    next
      assume b: "w \<in> set (splitRuns sep (dropWhile sep (dropWhile (\<lambda>c. \<not> sep c) s)))"
      from "1.IH" [OF False b 1(3)]
      have "c \<in> set (dropWhile sep (dropWhile (\<lambda>c. \<not> sep c) s))" and n: "\<not> sep c"
        by simp_all
      then have "c \<in> set s" by (blast dest: set_dropWhileD)
      with n show ?thesis by simp
    qed
  qed
qed

lemma set_join: "set (join sep ws) \<subseteq> set sep \<union> \<Union> (set ` set ws)"
  by (induction sep ws rule: join.induct) auto

section \<open>The words of a title\<close>

lemma formatTitle_words:
  "formatTitle uc title = join (js ''-'') (map (capitalize uc) (titleWords title))"
  unfolding formatTitle_def titleWords_def capitalize_def [abs_def] by (rule refl)

lemma titleWords_clean:
  assumes "w \<in> set (titleWords title)"
  shows "cleanWord w"
proof -
  let ?F = "filter (\<lambda>c. isAlnum c \<or> isSpace c \<or> c = hyphen)
               (replaceRuns isSeparatorPunct (js '' '') title)"
  let ?T = "trim (replaceRuns isSpace (js '' '') ?F)"
  from assms have ne: "w \<noteq> []"
    and mem: "w \<in> set (splitRuns (\<lambda>c. isSpace c \<or> c = hyphen) ?T)"
    by (simp_all add: titleWords_def)
  have "isAlnum c" if "c \<in> set w" for c
  proof -
    from splitRuns_tokens [OF mem that]
    have inT: "c \<in> set ?T" and nsep: "\<not> (isSpace c \<or> c = hyphen)"
      by simp_all
    from inT set_trim have "c \<in> set (replaceRuns isSpace (js '' '') ?F)"
      by blast
    with set_replaceRuns have "c \<in> set (js '' '') \<union> set ?F"
      by blast
    then have "isAlnum c \<or> isSpace c \<or> c = hyphen"
      by (auto simp: js_space space_is_space)
    with nsep show ?thesis by simp
  qed
  with ne show ?thesis
    by (simp add: cleanWord_def list_all_iff)
qed

lemma titleWords_chars:
  assumes "w \<in> set (titleWords title)" "c \<in> set w"
  shows "c \<in> set title"
proof -
  let ?F = "filter (\<lambda>c. isAlnum c \<or> isSpace c \<or> c = hyphen)
               (replaceRuns isSeparatorPunct (js '' '') title)"
  let ?T = "trim (replaceRuns isSpace (js '' '') ?F)"
  from assms(1) have mem: "w \<in> set (splitRuns (\<lambda>c. isSpace c \<or> c = hyphen) ?T)"
    by (simp add: titleWords_def)
  from splitRuns_tokens [OF mem assms(2)]
  have inT: "c \<in> set ?T" and nsp: "\<not> isSpace c"
    by simp_all
  from nsp have ne: "c \<noteq> 0x20"
    using space_is_space by auto
  from inT set_trim have "c \<in> set (replaceRuns isSpace (js '' '') ?F)"
    by blast
  with set_replaceRuns have "c \<in> set (js '' '') \<union> set ?F"
    by blast
  with ne have "c \<in> set (replaceRuns isSeparatorPunct (js '' '') title)"
    by (simp add: js_space)
  with set_replaceRuns have "c \<in> set (js '' '') \<union> set title"
    by blast
  with ne show ?thesis
    by (simp add: js_space)
qed

lemma capitalize_clean:
  assumes "cleanWord w"
  shows "cleanWord (capitalize uc w) \<and> capitalize uc (capitalize uc w) = capitalize uc w"
proof -
  from assms obtain c cs where w: "w = c # cs" and c: "isAlnum c" and cs: "list_all isAlnum cs"
    by (cases w) (auto simp: cleanWord_def)
  from upper_alnum [OF c, of uc] obtain d
    where d: "toUpperCase uc [c] = [d]" "isAlnum d" "toUpperCase uc [d] = [d]"
    by blast
  have "capitalize uc w = d # cs"
    by (simp add: capitalize_def w d)
  moreover have "capitalize uc (d # cs) = d # cs"
    by (simp add: capitalize_def d)
  ultimately show ?thesis
    using d(2) cs by (simp add: cleanWord_def)
qed

lemma cleanWord_chars:
  assumes "cleanWord w" "c \<in> set w"
  shows "isAlnum c"
  using assms by (simp add: cleanWord_def list_all_iff)

lemma join_clean_chars:
  assumes "list_all cleanWord ws" "c \<in> set (join (js ''-'') ws)"
  shows "isAlnum c \<or> c = hyphen"
proof -
  from assms(2) set_join have "c \<in> set (js ''-'') \<union> \<Union> (set ` set ws)"
    by blast
  then show ?thesis
    using assms(1) by (auto simp: js_hyphen list_all_iff dest: cleanWord_chars)
qed

lemma splitRuns_join_clean:
  assumes "list_all cleanWord ws"
  shows "filter (\<lambda>w. w \<noteq> []) (splitRuns (\<lambda>c. isSpace c \<or> c = hyphen) (join (js ''-'') ws)) = ws"
  using assms
proof (induction "js ''-''" ws rule: join.induct)
  case 1
  show ?case by (simp add: splitRuns_last)
next
  case (2 w)
  then have cw: "cleanWord w" by simp
  then have "\<forall>c\<in>set w. \<not> (isSpace c \<or> c = hyphen)"
    by (auto dest: cleanWord_chars alnum_not_space alnum_not_hyphen)
  then have "dropWhile (\<lambda>c. \<not> (isSpace c \<or> c = hyphen)) w = []"
    by simp
  then have "splitRuns (\<lambda>c. isSpace c \<or> c = hyphen) w = [w]"
    by (rule splitRuns_last)
  with cw show ?case by (simp add: cleanWord_def)
next
  case (3 w v vs)
  let ?sep = "\<lambda>c. isSpace c \<or> c = hyphen"
  let ?rest = "join (js ''-'') (v # vs)"
  from 3(2) have cw: "cleanWord w" and cv: "cleanWord v" and crest: "list_all cleanWord (v # vs)"
    by simp_all
  have wns: "\<forall>c\<in>set w. \<not> ?sep c"
    using cw by (auto dest: cleanWord_chars alnum_not_space alnum_not_hyphen)
  from cv obtain a as where v: "v = a # as" and a: "isAlnum a"
    by (cases v) (auto simp: cleanWord_def)
  have "\<exists>tl'. ?rest = a # tl'"
    by (cases vs) (simp_all add: v)
  then obtain tl' where rest: "?rest = a # tl'" ..
  have nsa: "\<not> ?sep a"
    using a by (auto dest: alnum_not_space alnum_not_hyphen)
  have whole: "join (js ''-'') (w # v # vs) = w @ hyphen # ?rest"
    by (simp add: js_hyphen)
  have tw: "takeWhile (\<lambda>c. \<not> ?sep c) (w @ hyphen # ?rest) = w"
    using wns by (simp add: takeWhile_append2 del: join.simps)
  have dw: "dropWhile (\<lambda>c. \<not> ?sep c) (w @ hyphen # ?rest) = hyphen # ?rest"
    using wns by (simp add: dropWhile_append2 del: join.simps)
  have dd: "dropWhile ?sep (hyphen # ?rest) = ?rest"
    unfolding rest using nsa by simp
  have "splitRuns ?sep (w @ hyphen # ?rest) = w # splitRuns ?sep ?rest"
    by (subst splitRuns_more) (simp_all only: tw dw dd list.simps not_False_eq_True)
  with 3(1) [OF crest] cw show ?case
    unfolding whole by (simp add: cleanWord_def del: join.simps)
qed

lemma titleWords_join_clean:
  assumes "list_all cleanWord ws"
  shows "titleWords (join (js ''-'') ws) = ws"
proof -
  let ?t = "join (js ''-'') ws"
  have chars: "\<forall>c\<in>set ?t. isAlnum c \<or> c = hyphen"
    using join_clean_chars [OF assms] by blast
  have 1: "replaceRuns isSeparatorPunct (js '' '') ?t = ?t"
    using chars by (intro replaceRuns_none) (auto dest: alnum_not_punct simp: hyphen_not_punct)
  have 2: "filter (\<lambda>c. isAlnum c \<or> isSpace c \<or> c = hyphen) ?t = ?t"
    using chars by (simp add: filter_id_conv) blast
  have nosp: "\<forall>c\<in>set ?t. \<not> isSpace c"
    using chars by (auto dest: alnum_not_space simp: hyphen_not_space)
  have 3: "replaceRuns isSpace (js '' '') ?t = ?t"
    using nosp by (rule replaceRuns_none)
  have 4: "trim ?t = ?t"
    using nosp by (rule trim_none)
  show ?thesis
    unfolding titleWords_def 1 2 3 4 by (rule splitRuns_join_clean [OF assms])
qed

lemma formatTitle_blank:
  assumes "list_all isSpace s"
  shows "formatTitle uc s = []"
proof -
  from assms have a: "\<forall>c\<in>set s. isSpace c"
    by (simp add: list_all_iff)
  have 1: "replaceRuns isSeparatorPunct (js '' '') s = s"
    using a by (intro replaceRuns_none) (auto dest: space_not_punct)
  have 2: "filter (\<lambda>c. isAlnum c \<or> isSpace c \<or> c = hyphen) s = s"
    using a by (simp add: filter_id_conv)
  have 3: "trim (replaceRuns isSpace (js '' '') s) = []"
  proof (cases "s = []")
    case True
    then show ?thesis by (simp add: trim_def)
  next
    case False
    with a have "replaceRuns isSpace (js '' '') s = js '' ''"
      by (simp add: replaceRuns_all)
    then show ?thesis
      by (simp add: trim_def js_space space_is_space)
  qed
  have 4: "splitRuns (\<lambda>c. isSpace c \<or> c = hyphen) [] = [[]]"
    by (simp add: splitRuns_last)
  show ?thesis
    by (simp add: formatTitle_def 1 2 3 4)
qed

lemma formatTitle_no_alnum:
  assumes "list_all (\<lambda>c. \<not> isAlnum c) title"
  shows "formatTitle uc title = []"
proof -
  have "titleWords title = []"
  proof (cases "titleWords title")
    case Nil
    then show ?thesis .
  next
    case (Cons w ws)
    then have mem: "w \<in> set (titleWords title)" by simp
    then have "cleanWord w" by (rule titleWords_clean)
    then obtain c where c: "c \<in> set w" "isAlnum c"
      by (cases w) (auto simp: cleanWord_def)
    from titleWords_chars [OF mem c(1)] assms have "\<not> isAlnum c"
      by (simp add: list_all_iff)
    with c(2) show ?thesis by simp
  qed
  then show ?thesis
    by (simp add: formatTitle_words)
qed

lemmas fmt_eval = formatTitle_def formatTitle_draft_def js_def isSeparatorPunct_def isSpace_def
  isAlnum_def hyphen_def trim_def splitRuns.simps toUpperCase_def buildBranchName_def BRANCH_PREFIX_def

lemma example_branch: "buildBranchName uc (js ''100'') (js ''Add login page'') = js ''feature/100-Add-Login-Page''"
  by (simp add: fmt_eval)

section \<open>The matcher\<close>

lemma firstSome_sound: "firstSome xs = Some y \<Longrightarrow> Some y \<in> set xs"
  by (induction xs rule: firstSome.induct) auto

lemma firstSome_complete: "Some y \<in> set xs \<Longrightarrow> \<exists>z. firstSome xs = Some z"
  by (induction xs rule: firstSome.induct) auto

lemma lens_iff:
  "n \<in> set (lens P q s) \<longleftrightarrow>
     n \<le> length (takeWhile P s)
     \<and> (case q of Once \<Rightarrow> n = 1 | OneOrMore \<Rightarrow> 1 \<le> n | ZeroOrMore \<Rightarrow> True)"
proof (cases q)
  case Once
  then show ?thesis by (cases s) auto
next
  case OneOrMore
  then show ?thesis by auto
next
  case ZeroOrMore
  then show ?thesis by auto
qed

lemma take_run:
  assumes "n \<le> length (takeWhile P s)"
  shows "list_all P (take n s) \<and> length (take n s) = n"
proof -
  have "take n s = take n (takeWhile P s @ dropWhile P s)"
    by simp
  also have "\<dots> = take n (takeWhile P s)"
    using assms by (simp del: takeWhile_dropWhile_id)
  finally have eq: "take n s = take n (takeWhile P s)" .
  have "\<forall>c\<in>set (take n (takeWhile P s)). P c"
    by (auto dest: in_set_takeD set_takeWhileD)
  with eq assms show ?thesis
    by (simp add: list_all_iff)
qed

lemma run_length:
  assumes "list_all P seg"
  shows "length seg \<le> length (takeWhile P (seg @ r))"
  using assms by (simp add: list_all_iff takeWhile_append2)

lemma matchSeq_sound:
  "matchSeq its s = Some cs \<Longrightarrow>
     \<exists>segs. list_all2 fits its segs \<and> concat segs = s \<and> cs = captures its segs"
proof (induction its arbitrary: s cs)
  case Nil
  then show ?case by (simp split: if_splits)
next
  case (Cons it its)
  obtain P q cap where it: "it = (P, q, cap)"
    by (cases it)
  let ?f = "\<lambda>n. case matchSeq its (drop n s) of
                    None \<Rightarrow> None
                  | Some caps \<Rightarrow> Some (if cap then take n s # caps else caps)"
  from Cons.prems have "firstSome (map ?f (lens P q s)) = Some cs"
    by (simp add: it)
  then have "Some cs \<in> set (map ?f (lens P q s))"
    by (rule firstSome_sound)
  then obtain n where n: "n \<in> set (lens P q s)" and fn: "?f n = Some cs"
    by auto
  from fn obtain caps where rest: "matchSeq its (drop n s) = Some caps"
    and cs: "cs = (if cap then take n s # caps else caps)"
    by (auto split: option.splits)
  from Cons.IH [OF rest] obtain segs where segs: "list_all2 fits its segs"
    "concat segs = drop n s" "caps = captures its segs"
    by blast
  from n have le: "n \<le> length (takeWhile P s)"
    and qn: "case q of Once \<Rightarrow> n = 1 | OneOrMore \<Rightarrow> 1 \<le> n | ZeroOrMore \<Rightarrow> True"
    by (simp_all add: lens_iff)
  from take_run [OF le] have tk: "list_all P (take n s)" "length (take n s) = n"
    by simp_all
  have "fits it (take n s)"
    using tk qn by (cases q) (auto simp: fits_def it)
  with segs cs have "list_all2 fits (it # its) (take n s # segs)
      \<and> concat (take n s # segs) = s \<and> cs = captures (it # its) (take n s # segs)"
    by (simp add: it)
  then show ?case by blast
qed

lemma matchSeq_complete:
  "list_all2 fits its segs \<Longrightarrow> \<exists>cs. matchSeq its (concat segs) = Some cs"
proof (induction its arbitrary: segs)
  case Nil
  then show ?case by simp
next
  case (Cons it its)
  obtain P q cap where it: "it = (P, q, cap)"
    by (cases it)
  from Cons.prems obtain seg segs' where segs: "segs = seg # segs'"
    and f: "fits it seg" and r: "list_all2 fits its segs'"
    by (auto simp: list_all2_Cons1)
  from Cons.IH [OF r] obtain caps where caps: "matchSeq its (concat segs') = Some caps"
    by blast
  let ?s = "seg @ concat segs'"
  let ?f = "\<lambda>n. case matchSeq its (drop n ?s) of
                    None \<Rightarrow> None
                  | Some caps \<Rightarrow> Some (if cap then take n ?s # caps else caps)"
  from f have all: "list_all P seg"
    and qn: "case q of Once \<Rightarrow> length seg = 1 | OneOrMore \<Rightarrow> seg \<noteq> [] | ZeroOrMore \<Rightarrow> True"
    by (simp_all add: fits_def it)
  have mem: "length seg \<in> set (lens P q ?s)"
    unfolding lens_iff using run_length [OF all] qn
    by (cases q) (auto simp: Suc_le_eq)
  have val: "?f (length seg) = Some (if cap then seg # caps else caps)"
    by (simp add: caps)
  have "?f (length seg) \<in> set (map ?f (lens P q ?s))"
    by (simp only: set_map) (rule imageI, rule mem)
  then have "Some (if cap then seg # caps else caps) \<in> set (map ?f (lens P q ?s))"
    by (simp only: val)
  from firstSome_complete [OF this] show ?case
    by (simp add: segs it)
qed

lemma run_unique:
  assumes "list_all P xs" "list_all P ys" "xs @ a # r = ys @ b # r'" "\<not> P a" "\<not> P b"
  shows "xs = ys \<and> a # r = b # r'"
proof -
  have "takeWhile P (xs @ a # r) = xs"
    using assms(1,4) by (simp add: list_all_iff takeWhile_append2)
  moreover have "takeWhile P (ys @ b # r') = ys"
    using assms(2,5) by (simp add: list_all_iff takeWhile_append2)
  ultimately have "xs = ys"
    using assms(3) by simp
  with assms(3) show ?thesis by simp
qed

lemma linkText_unique:
  assumes eq: "w @ ws @ i @ [0x3A] @ r = w' @ ws' @ i' @ [0x3A] @ r'"
    and w: "list_all isWord w" "list_all isWord w'"
    and ws: "ws \<noteq> []" "list_all isSpace ws" "ws' \<noteq> []" "list_all isSpace ws'"
    and i: "i \<noteq> []" "list_all isDigit i" "i' \<noteq> []" "list_all isDigit i'"
  shows "i = i' \<and> r = r'"
proof -
  from ws obtain s1 t1 s2 t2 where c1: "ws = s1 # t1" "isSpace s1" and c2: "ws' = s2 # t2" "isSpace s2"
    by (cases ws; cases ws') auto
  from i obtain d1 u1 d2 u2 where e1: "i = d1 # u1" "isDigit d1" and e2: "i' = d2 # u2" "isDigit d2"
    by (cases i; cases i') auto
  have "w @ s1 # (t1 @ i @ [0x3A] @ r) = w' @ s2 # (t2 @ i' @ [0x3A] @ r')"
    using eq c1(1) c2(1) by simp
  from run_unique [OF w this] c1(2) c2(2)
  have 1: "ws @ i @ [0x3A] @ r = ws' @ i' @ [0x3A] @ r'"
    by (simp add: space_not_word c1(1) c2(1))
  have "ws @ d1 # (u1 @ [0x3A] @ r) = ws' @ d2 # (u2 @ [0x3A] @ r')"
    using 1 e1(1) e2(1) by simp
  from run_unique [OF ws(2) ws(4) this] e1(2) e2(2)
  have 2: "i @ [0x3A] @ r = i' @ [0x3A] @ r'"
    by (simp add: digit_not_space e1(1) e2(1))
  have "i @ 0x3A # r = i' @ 0x3A # r'"
    using 2 by simp
  from run_unique [OF i(2) i(4) this] show ?thesis
    by (simp add: colon_not_digit)
qed

lemma linkTextPattern_sound:
  assumes "matchSeq linkTextPattern t = Some cs"
  shows "\<exists>ident ft. cs = [ident, ft] \<and> specLinkText isDot t ident (trim ft)"
proof -
  from matchSeq_sound [OF assms] obtain segs
    where segs: "list_all2 fits linkTextPattern segs" "concat segs = t"
      "cs = captures linkTextPattern segs"
    by blast
  from segs(1) obtain w ws ident c ows ft where shape: "segs = [w, ws, ident, c, ows, ft]"
    and f: "fits (isWord, OneOrMore, False) w" "fits (isSpace, OneOrMore, False) ws"
      "fits (isDigit, OneOrMore, True) ident" "fits (\<lambda>c. c = 0x3A, Once, False) c"
      "fits (isSpace, ZeroOrMore, False) ows" "fits (isDot, OneOrMore, True) ft"
    by (auto simp: linkTextPattern_def list_all2_Cons1)
  from f(4) have c: "c = [0x3A]"
    by (cases c) (auto simp: fits_def)
  have cs: "cs = [ident, ft]"
    by (simp add: segs(3) shape linkTextPattern_def)
  have "t = w @ ws @ ident @ [0x3A] @ ows @ ft"
    using segs(2) by (simp add: shape c)
  with f have "specLinkText isDot t ident (trim ft)"
    unfolding specLinkText_def fits_def by auto
  with cs show ?thesis by blast
qed

lemma linkTextPattern_complete:
  assumes "specLinkText isDot t ident label"
  shows "\<exists>ft. matchSeq linkTextPattern t = Some [ident, ft] \<and> trim ft = label"
proof -
  from assms obtain w ws ows ft where d: "t = w @ ws @ ident @ [0x3A] @ ows @ ft"
    "w \<noteq> []" "list_all isWord w" "ws \<noteq> []" "list_all isSpace ws"
    "ident \<noteq> []" "list_all isDigit ident" "list_all isSpace ows"
    "ft \<noteq> []" "list_all isDot ft" "label = trim ft"
    unfolding specLinkText_def by blast
  have "list_all2 fits linkTextPattern [w, ws, ident, [0x3A], ows, ft]"
    using d by (simp add: linkTextPattern_def fits_def)
  from matchSeq_complete [OF this] obtain cs where m: "matchSeq linkTextPattern t = Some cs"
    by (auto simp: d(1))
  from linkTextPattern_sound [OF m] obtain ident' ft'
    where cs: "cs = [ident', ft']" and sp: "specLinkText isDot t ident' (trim ft')"
    by blast
  from sp obtain w' ws' ows' ft'' where d': "t = w' @ ws' @ ident' @ [0x3A] @ ows' @ ft''"
    "w' \<noteq> []" "list_all isWord w'" "ws' \<noteq> []" "list_all isSpace ws'"
    "ident' \<noteq> []" "list_all isDigit ident'" "list_all isSpace ows'"
    "ft'' \<noteq> []" "list_all isDot ft''" "trim ft' = trim ft''"
    unfolding specLinkText_def by blast
  have "w @ ws @ ident @ [0x3A] @ (ows @ ft) = w' @ ws' @ ident' @ [0x3A] @ (ows' @ ft'')"
    using d(1) d'(1) by simp
  from linkText_unique [OF this d(3) d'(3) d(4,5) d'(4,5) d(6,7) d'(6,7)]
  have i: "ident = ident'" and r: "ows @ ft = ows' @ ft''"
    by simp_all
  from trim_after_spaces [OF d(8) d'(8) r] have "trim ft = trim ft''" .
  with d(11) d'(11) have "trim ft' = label"
    by simp
  with m cs i show ?thesis by simp
qed

lemmas match_eval = linkWithText_def getWorkItemFromDialog_def linkTextPattern_def js_def
  trim_def isSpace_def isWord_def isAlnum_def isDigit_def isDot_def

lemma exampleLink_parses:
  "getWorkItemFromDialog (d\<lparr>extensionsRegion := Some [exampleLink]\<rparr>)
     = Some \<lparr>item_id = js ''100'', item_title = js ''Add login page''\<rparr>"
  by (simp add: exampleLink_def match_eval)

section \<open>Episodes\<close>

lemma run_Nil: "run uc s [] = s"
  by (simp add: run_def)

lemma run_Cons: "run uc s (e # es) = run uc (step uc s e) es"
  by (simp add: run_def)

lemma run_append: "run uc s (es @ es') = run uc (run uc s es) es'"
  by (simp add: run_def)

lemma getWorkItem_region:
  "extensionsRegion d = extensionsRegion d' \<Longrightarrow> getWorkItemFromDialog d = getWorkItemFromDialog d'"
  by (simp add: getWorkItemFromDialog_def)

lemma observerCallback_settled: "settled s \<Longrightarrow> observerCallback uc s = s"
  by (simp add: observerCallback_def)

lemma timeoutCallback_settled: "settled s \<Longrightarrow> timeoutCallback s = s"
  by (simp add: timeoutCallback_def)

lemma step_settled:
  assumes "settled s"
  shows "settled (step uc s e) \<and> fillCalls (step uc s e) = fillCalls s
         \<and> observing (step uc s e) = observing s"
  using assms
  by (cases e) (simp_all add: observerCallback_def timeoutCallback_def split: option.split)

lemma run_settled:
  assumes "settled s"
  shows "settled (run uc s es) \<and> fillCalls (run uc s es) = fillCalls s
         \<and> observing (run uc s es) = observing s"
  using assms
proof (induction es arbitrary: s)
  case Nil
  then show ?case by (simp add: run_Nil)
next
  case (Cons e es)
  from step_settled [OF Cons.prems, of uc e] Cons.IH [of "step uc s e"]
  show ?case by (simp add: run_Cons)
qed

lemma settled_mutations:
  assumes "settled s"
  shows "branchInput (run uc s (map Mutate regions)) = branchInput s"
  using assms
proof (induction regions arbitrary: s)
  case Nil
  then show ?case by (simp add: run_Nil)
next
  case (Cons r rs)
  have "settled (step uc s (Mutate r))" "branchInput (step uc s (Mutate r)) = branchInput s"
    using Cons.prems by (simp_all add: observerCallback_def)
  with Cons.IH [of "step uc s (Mutate r)"] show ?case
    by (simp add: run_Cons)
qed

lemma step_filledOnce: "filledOnce s \<Longrightarrow> filledOnce (step uc s e)"
  by (cases e)
     (auto simp: filledOnce_def observerCallback_def timeoutCallback_def split: option.split)

lemma run_filledOnce: "filledOnce s \<Longrightarrow> filledOnce (run uc s es)"
  by (induction es arbitrary: s) (simp_all add: run_Nil run_Cons step_filledOnce)

lemma waitForWorkItem_filledOnce: "filledOnce (waitForWorkItem uc t d inp)"
  by (simp add: waitForWorkItem_def filledOnce_def split: option.split)

lemma step_waiting:
  assumes "waiting t s" "noMatch e"
  shows "waiting t (step uc s e)"
proof (cases e)
  case (Advance n)
  with assms(1) show ?thesis by (auto simp: waiting_def split: if_splits)
next
  case (Mutate region)
  with assms(2) have "getWorkItemFromDialog ((dialog s)\<lparr>extensionsRegion := Some region\<rparr>) = None"
    using getWorkItem_region [of "(dialog s)\<lparr>extensionsRegion := Some region\<rparr>"
        "\<lparr>itemNameInput = None, extensionsRegion = Some region\<rparr>"]
    by (simp add: noMatch_def)
  with assms(1) Mutate show ?thesis
    by (auto simp: waiting_def observerCallback_def split: if_splits)
next
  case TimerFires
  with assms(1) show ?thesis
    by (auto simp: waiting_def timeoutCallback_def split: if_splits)
next
  case (UserTypes v)
  with assms(1) show ?thesis by (auto simp: waiting_def split: if_splits)
qed

lemma run_waiting:
  assumes "waiting t s" "list_all noMatch es"
  shows "waiting t (run uc s es)"
  using assms
  by (induction es arbitrary: s) (simp_all add: run_Nil run_Cons step_waiting)

lemma waitForWorkItem_waiting:
  "getWorkItemFromDialog d = None \<Longrightarrow> waiting t (waitForWorkItem uc t d inp)"
  by (simp add: waitForWorkItem_def waiting_def)

lemma waiting_timeout:
  assumes "waiting t s"
  shows "settled (run uc s [Advance TIMEOUT_MS, TimerFires])
         \<and> fillCalls (run uc s [Advance TIMEOUT_MS, TimerFires]) = 0"
  using assms
  by (auto simp: waiting_def run_Cons run_Nil timeoutCallback_def split: if_splits)

lemma step_idle:
  assumes "\<not> observing s \<and> timer s = None \<and> fillCalls s = n"
  shows "\<not> observing (step uc s e) \<and> timer (step uc s e) = None \<and> fillCalls (step uc s e) = n"
  using assms by (cases e) simp_all

lemma run_idle:
  assumes "\<not> observing s \<and> timer s = None \<and> fillCalls s = n"
  shows "\<not> observing (run uc s es) \<and> timer (run uc s es) = None \<and> fillCalls (run uc s es) = n"
  using assms
proof (induction es arbitrary: s)
  case Nil
  then show ?case by (simp add: run_Nil)
next
  case (Cons e es)
  from Cons.IH [OF step_idle [OF Cons.prems, of uc e]]
  show ?case by (simp add: run_Cons)
qed

lemma example_fill:
  "fillBranchName uc emptyInput \<lparr>item_id = js ''100'', item_title = js ''Add login page''\<rparr>
     = emptyInput\<lparr>inputValue := js ''feature/100-Add-Login-Page'',
         dispatched := [InputEvent, ChangeEvent], focused := True, selected := True,
         clipboardButton := True\<rparr>"
  by (simp add: fillBranchName_def setInputValue_def addCopyButton_def example_branch)
     (simp add: emptyInput_def trim_def)

lemma example_start:
  "waitForWorkItem uc t exampleDialog emptyInput
     = \<lparr>dialog = exampleDialog, branchInput = emptyInput, settled = False,
         observing = True, timer = Some (t + 10000), now = t, fillCalls = 0\<rparr>"
  by (simp add: waitForWorkItem_def getWorkItemFromDialog_def exampleDialog_def TIMEOUT_MS_def)

lemma example_loaded:
  "step uc (waitForWorkItem uc t exampleDialog emptyInput) (Mutate [exampleLink])
     = \<lparr>dialog = exampleDialog\<lparr>extensionsRegion := Some [exampleLink]\<rparr>,
         branchInput = emptyInput\<lparr>inputValue := js ''feature/100-Add-Login-Page'',
           dispatched := [InputEvent, ChangeEvent], focused := True, selected := True,
           clipboardButton := True\<rparr>,
         settled = True, observing = False, timer = Some (t + 10000), now = t, fillCalls = 1\<rparr>"
  by (simp add: example_start observerCallback_def exampleLink_parses example_fill)

section \<open>The waiter: claims\<close>

text \<open>
  C1. An episode of \<open>waitForWorkItem\<close> calls \<open>fillBranchName\<close> at most once. Once
  \<open>settled\<close> is set, the observer callback does nothing and no later event leads to a
  fill. When neither the dialog at the start nor any mutation brings matching content,
  no fill happens, the episode is not settled before 10000 ms have passed since the
  call, it is settled once the timeout has been dispatched, and no event after that
  leads to a fill, matching content included.
\<close>

theorem waiter_at_most_once:
  "fillCalls (run uc (waitForWorkItem uc t d inp) es) \<le> 1
   \<and> (settled s \<longrightarrow>
        observerCallback uc s = s \<and> settled (run uc s es)
        \<and> fillCalls (run uc s es) = fillCalls s)
   \<and> (getWorkItemFromDialog d = None \<and> list_all noMatch es \<longrightarrow>
        fillCalls (run uc (waitForWorkItem uc t d inp) es) = 0
        \<and> (settled (run uc (waitForWorkItem uc t d inp) es) \<longrightarrow>
             t + 10000 \<le> now (run uc (waitForWorkItem uc t d inp) es))
        \<and> settled (run uc (waitForWorkItem uc t d inp) (es @ [Advance 10000, TimerFires]))
        \<and> fillCalls (run uc (waitForWorkItem uc t d inp)
             (es @ [Advance 10000, TimerFires] @ es')) = 0)"
proof -
  let ?s0 = "waitForWorkItem uc t d inp"
  have a: "fillCalls (run uc ?s0 es) \<le> 1"
    using run_filledOnce [OF waitForWorkItem_filledOnce] by (simp add: filledOnce_def)
  have b: "settled s \<longrightarrow> observerCallback uc s = s \<and> settled (run uc s es)
        \<and> fillCalls (run uc s es) = fillCalls s"
    by (simp add: observerCallback_settled run_settled)
  have c: "fillCalls (run uc ?s0 es) = 0
        \<and> (settled (run uc ?s0 es) \<longrightarrow> t + 10000 \<le> now (run uc ?s0 es))
        \<and> settled (run uc ?s0 (es @ [Advance 10000, TimerFires]))
        \<and> fillCalls (run uc ?s0 (es @ [Advance 10000, TimerFires] @ es')) = 0"
    if none: "getWorkItemFromDialog d = None" and quiet: "list_all noMatch es"
  proof -
    have w: "waiting t (run uc ?s0 es)"
      using waitForWorkItem_waiting [OF none] quiet by (rule run_waiting)
    then have 1: "fillCalls (run uc ?s0 es) = 0"
      and 2: "settled (run uc ?s0 es) \<longrightarrow> t + 10000 \<le> now (run uc ?s0 es)"
      by (auto simp add: waiting_def TIMEOUT_MS_def split: if_splits)
    from waiting_timeout [OF w, of uc]
    have 3: "settled (run uc ?s0 (es @ [Advance 10000, TimerFires]))"
      and 4: "fillCalls (run uc ?s0 (es @ [Advance 10000, TimerFires])) = 0"
      by (simp_all add: run_append TIMEOUT_MS_def)
    have e: "run uc ?s0 (es @ [Advance 10000, TimerFires] @ es')
        = run uc (run uc ?s0 (es @ [Advance 10000, TimerFires])) es'"
      using run_append [of uc ?s0 "es @ [Advance 10000, TimerFires]" es'] by simp
    from run_settled [OF 3, of uc es'] 4
    have 5: "fillCalls (run uc ?s0 (es @ [Advance 10000, TimerFires] @ es')) = 0"
      unfolding e by simp
    from 1 2 3 5 show ?thesis by blast
  qed
  from a b c show ?thesis by blast
qed

theorem waiter_at_most_once_witness:
  "settled (run asciiOnly (waitForWorkItem asciiOnly 0 exampleDialog emptyInput)
       [Advance 10000, TimerFires])
   \<and> getWorkItemFromDialog exampleDialog = None
   \<and> list_all noMatch [Mutate []]
   \<and> fillCalls (run asciiOnly (waitForWorkItem asciiOnly 0 exampleDialog emptyInput)
       ([Mutate []] @ [Advance 10000, TimerFires] @ [Mutate [exampleLink]])) = 0"
proof -
  have a: "getWorkItemFromDialog exampleDialog = None"
    by (simp add: getWorkItemFromDialog_def exampleDialog_def)
  have b: "list_all noMatch [Mutate []]"
    by (simp add: noMatch_def getWorkItemFromDialog_def)
  have c: "settled (run asciiOnly (waitForWorkItem asciiOnly 0 exampleDialog emptyInput)
       [Advance 10000, TimerFires])"
    using a waiter_at_most_once [of asciiOnly 0 exampleDialog emptyInput "[]"]
    by simp
  from a b waiter_at_most_once [of asciiOnly 0 exampleDialog emptyInput "[Mutate []]"
      "run asciiOnly (waitForWorkItem asciiOnly 0 exampleDialog emptyInput)
       [Advance 10000, TimerFires]" "[Mutate [exampleLink]]"] c
  show ?thesis by blast
qed

text \<open>
  C2, as stated, fails. In the example episode the mutation that brings the link
  settles the episode, and the timeout set at the start is still pending after that
  turn; it is dispatched at 10000 ms.
\<close>

theorem settle_keeps_timer_counterexample:
  "\<not> settled (waitForWorkItem asciiOnly 0 exampleDialog emptyInput)
   \<and> settled (step asciiOnly (waitForWorkItem asciiOnly 0 exampleDialog emptyInput)
        (Mutate [exampleLink]))
   \<and> timer (step asciiOnly (waitForWorkItem asciiOnly 0 exampleDialog emptyInput)
        (Mutate [exampleLink])) = Some 10000
   \<and> timer (run asciiOnly (waitForWorkItem asciiOnly 0 exampleDialog emptyInput)
        [Mutate [exampleLink], Advance 10000, TimerFires]) = None"
proof -
  let ?s0 = "waitForWorkItem asciiOnly 0 exampleDialog emptyInput"
  let ?s1 = "step asciiOnly ?s0 (Mutate [exampleLink])"
  have a: "\<not> settled ?s0"
    by (simp add: example_start)
  have b: "settled ?s1" and c: "timer ?s1 = Some 10000" and n: "now ?s1 = 0"
    by (simp_all only: example_loaded) simp_all
  have "run asciiOnly ?s0 [Mutate [exampleLink], Advance 10000, TimerFires]
      = step asciiOnly (step asciiOnly ?s1 (Advance 10000)) TimerFires"
    by (simp only: run_Cons run_Nil)
  also have "timer \<dots> = None"
    using b c n by (simp add: timeoutCallback_def)
  finally have d: "timer (run asciiOnly ?s0 [Mutate [exampleLink], Advance 10000, TimerFires])
      = None" .
  from a b c d show ?thesis by blast
qed

text \<open>
  C2, amended. The turn that sets \<open>settled\<close> disconnects the observer in that turn.
  The timer is retired with it only when it is the timeout that settles the episode;
  when a successful extraction settles it, following a mutation and with one call of
  \<open>fillBranchName\<close>, the timer is left as it was. After settlement both callbacks do
  nothing: the state, the field and the number of fills stay as they are.
\<close>

theorem settle_disconnects:
  "(\<not> settled s \<and> settled (step uc s e) \<longrightarrow>
      \<not> observing (step uc s e)
      \<and> (e = TimerFires \<and> timer (step uc s e) = None
         \<or> (\<exists>region. e = Mutate region) \<and> timer (step uc s e) = timer s
            \<and> fillCalls (step uc s e) = Suc (fillCalls s)))
   \<and> (settled s \<longrightarrow> observerCallback uc s = s \<and> timeoutCallback s = s
        \<and> fillCalls (run uc s es) = fillCalls s
        \<and> branchInput (step uc s (Mutate region')) = branchInput s
        \<and> branchInput (step uc s TimerFires) = branchInput s)"
proof -
  have a: "\<not> observing (step uc s e)
      \<and> (e = TimerFires \<and> timer (step uc s e) = None
         \<or> (\<exists>region. e = Mutate region) \<and> timer (step uc s e) = timer s
            \<and> fillCalls (step uc s e) = Suc (fillCalls s))"
    if "\<not> settled s" "settled (step uc s e)"
    using that
    by (cases e)
       (auto simp: observerCallback_def timeoutCallback_def split: option.splits if_splits)
  have b: "observerCallback uc s = s \<and> timeoutCallback s = s
        \<and> fillCalls (run uc s es) = fillCalls s
        \<and> branchInput (step uc s (Mutate region')) = branchInput s
        \<and> branchInput (step uc s TimerFires) = branchInput s"
    if "settled s"
    using that run_settled [OF that, of uc es]
    by (simp add: observerCallback_def timeoutCallback_def split: option.split)
  from a b show ?thesis by blast
qed

theorem settle_disconnects_witness:
  "\<not> settled (waitForWorkItem asciiOnly 0 exampleDialog emptyInput)
   \<and> settled (step asciiOnly (waitForWorkItem asciiOnly 0 exampleDialog emptyInput)
        (Mutate [exampleLink]))
   \<and> \<not> observing (step asciiOnly (waitForWorkItem asciiOnly 0 exampleDialog emptyInput)
        (Mutate [exampleLink]))
   \<and> timeoutCallback (step asciiOnly (waitForWorkItem asciiOnly 0 exampleDialog emptyInput)
        (Mutate [exampleLink]))
      = step asciiOnly (waitForWorkItem asciiOnly 0 exampleDialog emptyInput)
        (Mutate [exampleLink])"
proof -
  let ?s0 = "waitForWorkItem asciiOnly 0 exampleDialog emptyInput"
  have a: "\<not> settled ?s0"
    by (simp add: example_start)
  have b: "settled (step asciiOnly ?s0 (Mutate [exampleLink]))"
    by (simp only: example_loaded) simp
  from a b settle_disconnects [of ?s0 asciiOnly "Mutate [exampleLink]"]
  have c: "\<not> observing (step asciiOnly ?s0 (Mutate [exampleLink]))"
    by blast
  from b settle_disconnects [of "step asciiOnly ?s0 (Mutate [exampleLink])" asciiOnly]
  have d: "timeoutCallback (step asciiOnly ?s0 (Mutate [exampleLink]))
      = step asciiOnly ?s0 (Mutate [exampleLink])"
    by blast
  from a b c d show ?thesis by blast
qed

section \<open>The field writer: claims\<close>

text \<open>
  C3. \<open>fillBranchName\<close> never overwrites a field that is not empty after trimming: the
  input element is left as it is. Hence a second call after a first one that left the
  field non-empty changes nothing, and a mutation callback of an episode leaves a
  non-empty field alone.
\<close>

theorem fillBranchName_no_overwrite:
  "(trim (inputValue inp) \<noteq> [] \<longrightarrow> fillBranchName uc inp wi = inp)
   \<and> (trim (inputValue (fillBranchName uc inp wi)) \<noteq> [] \<longrightarrow>
        fillBranchName uc (fillBranchName uc inp wi) wi' = fillBranchName uc inp wi)
   \<and> (trim (inputValue (branchInput s)) \<noteq> [] \<longrightarrow>
        branchInput (step uc s (Mutate region)) = branchInput s)"
proof -
  have keep: "fillBranchName uc i w = i" if "trim (inputValue i) \<noteq> []" for i w
    using that by (simp add: fillBranchName_def)
  have "branchInput (step uc s (Mutate region)) = branchInput s"
    if "trim (inputValue (branchInput s)) \<noteq> []"
  proof (cases "observing s")
    case True
    with that show ?thesis
      by (simp add: observerCallback_def keep split: option.split)
  next
    case False
    then show ?thesis by simp
  qed
  with keep show ?thesis by blast
qed

theorem fillBranchName_no_overwrite_witness:
  "trim (inputValue (emptyInput\<lparr>inputValue := js ''users/me/topic''\<rparr>)) \<noteq> []
   \<and> fillBranchName asciiOnly (emptyInput\<lparr>inputValue := js ''users/me/topic''\<rparr>)
        \<lparr>item_id = js ''100'', item_title = js ''Add login page''\<rparr>
      = emptyInput\<lparr>inputValue := js ''users/me/topic''\<rparr>
   \<and> trim (inputValue (fillBranchName asciiOnly emptyInput
        \<lparr>item_id = js ''100'', item_title = js ''Add login page''\<rparr>)) \<noteq> []
   \<and> fillBranchName asciiOnly
        (fillBranchName asciiOnly emptyInput
          \<lparr>item_id = js ''100'', item_title = js ''Add login page''\<rparr>)
        \<lparr>item_id = js ''200'', item_title = js ''Other''\<rparr>
      = fillBranchName asciiOnly emptyInput
          \<lparr>item_id = js ''100'', item_title = js ''Add login page''\<rparr>
   \<and> trim (inputValue (branchInput
        (step asciiOnly (waitForWorkItem asciiOnly 0 exampleDialog emptyInput)
          (UserTypes (js ''users/me/topic''))))) \<noteq> []
   \<and> branchInput
        (step asciiOnly
          (step asciiOnly (waitForWorkItem asciiOnly 0 exampleDialog emptyInput)
            (UserTypes (js ''users/me/topic'')))
          (Mutate [exampleLink]))
      = emptyInput\<lparr>inputValue := js ''users/me/topic''\<rparr>"
proof -
  let ?typed = "emptyInput\<lparr>inputValue := js ''users/me/topic''\<rparr>"
  let ?wi = "\<lparr>item_id = js ''100'', item_title = js ''Add login page''\<rparr>"
  let ?wi' = "\<lparr>item_id = js ''200'', item_title = js ''Other''\<rparr>"
  let ?s = "step asciiOnly (waitForWorkItem asciiOnly 0 exampleDialog emptyInput)
          (UserTypes (js ''users/me/topic''))"
  have a: "trim (inputValue ?typed) \<noteq> []"
    by (simp add: js_def trim_def isSpace_def)
  have b: "trim (inputValue (fillBranchName asciiOnly emptyInput ?wi)) \<noteq> []"
    by (simp only: example_fill) (simp add: js_def trim_def isSpace_def)
  have s: "branchInput ?s = ?typed"
    by (simp add: example_start)
  with a have c: "trim (inputValue (branchInput ?s)) \<noteq> []"
    by simp
  note t = fillBranchName_no_overwrite
  from a t [of ?typed asciiOnly ?wi]
  have 1: "fillBranchName asciiOnly ?typed ?wi = ?typed"
    by blast
  from b t [of emptyInput asciiOnly ?wi ?wi']
  have 2: "fillBranchName asciiOnly (fillBranchName asciiOnly emptyInput ?wi) ?wi'
      = fillBranchName asciiOnly emptyInput ?wi"
    by blast
  from c t [of _ _ _ _ ?s "[exampleLink]"]
  have "branchInput (step asciiOnly ?s (Mutate [exampleLink])) = branchInput ?s"
    by blast
  with s have 3: "branchInput (step asciiOnly ?s (Mutate [exampleLink])) = ?typed"
    by simp
  from a b c 1 2 3 show ?thesis by blast
qed

section \<open>The formatter: the literal cases\<close>

text \<open>
  C4. The formatter turns punctuation into spaces first and strips characters second:
  it is the draft formatter (strip, collapse, split, capitalise, join) applied to the
  title after the punctuation substitution, and on \<open>login/logout\<close> the two differ.
  The literal cases hold: \<open>hello world example\<close> gives \<open>Hello-World-Example\<close>,
  \<open>Fix: login/logout   bug!!\<close> gives \<open>Fix-Login-Logout-Bug\<close>, and every title made
  of white space only, the empty one included, gives the empty string.
\<close>

theorem formatTitle_literals:
  "formatTitle uc (js ''hello world example'') = js ''Hello-World-Example''
   \<and> formatTitle uc (js ''Fix: login/logout   bug!!'') = js ''Fix-Login-Logout-Bug''
   \<and> (list_all isSpace s \<longrightarrow> formatTitle uc s = [])
   \<and> formatTitle uc t = formatTitle_draft uc (replaceRuns isSeparatorPunct (js '' '') t)
   \<and> formatTitle uc (js ''login/logout'') = js ''Login-Logout''
   \<and> formatTitle_draft uc (js ''login/logout'') = js ''Loginlogout''"
proof -
  have 1: "formatTitle uc (js ''hello world example'') = js ''Hello-World-Example''"
    by (simp add: fmt_eval)
  have 2: "formatTitle uc (js ''Fix: login/logout   bug!!'') = js ''Fix-Login-Logout-Bug''"
    by (simp add: fmt_eval)
  have 3: "list_all isSpace s \<longrightarrow> formatTitle uc s = []"
    by (simp add: formatTitle_blank)
  have 4: "formatTitle uc t = formatTitle_draft uc (replaceRuns isSeparatorPunct (js '' '') t)"
    by (simp add: formatTitle_def formatTitle_draft_def)
  have 5: "formatTitle uc (js ''login/logout'') = js ''Login-Logout''"
    by (simp add: fmt_eval)
  have 6: "formatTitle_draft uc (js ''login/logout'') = js ''Loginlogout''"
    by (simp add: fmt_eval)
  from 1 2 3 4 5 6 show ?thesis by blast
qed

theorem formatTitle_literals_witness:
  "list_all isSpace [0x20, 0x09, 0xA0] \<and> formatTitle asciiOnly [0x20, 0x09, 0xA0] = []"
proof -
  have h: "list_all isSpace [0x20, 0x09, 0xA0]"
    by (simp add: isSpace_def)
  from h formatTitle_literals [where uc = asciiOnly and s = "[0x20, 0x09, 0xA0]" and t = "[]"]
  show ?thesis by blast
qed

section \<open>The whole episode\<close>

text \<open>
  C5. The dialog appears with an empty field and an empty region: \<open>handleBranchDialog\<close>
  starts an episode and the field stays empty. When the region gains the link
  \<open>Task 100: Add login page\<close>, the field holds \<open>feature/100-Add-Login-Page\<close>, the
  input and change events have been dispatched, and the field has focus and is
  selected. Whatever the region is changed to afterwards, another link included, the
  field stays as it is and no further fill happens.
\<close>

theorem end_to_end:
  "handleBranchDialog uc t exampleDialog = Some (waitForWorkItem uc t exampleDialog emptyInput)
   \<and> inputValue (branchInput (waitForWorkItem uc t exampleDialog emptyInput)) = []
   \<and> branchInput (run uc (waitForWorkItem uc t exampleDialog emptyInput)
         [Advance n, Mutate [exampleLink]])
       = emptyInput\<lparr>inputValue := js ''feature/100-Add-Login-Page'',
           dispatched := [InputEvent, ChangeEvent], focused := True, selected := True,
           clipboardButton := True\<rparr>
   \<and> branchInput (run uc (waitForWorkItem uc t exampleDialog emptyInput)
         ([Advance n, Mutate [exampleLink]] @ map Mutate regions))
       = emptyInput\<lparr>inputValue := js ''feature/100-Add-Login-Page'',
           dispatched := [InputEvent, ChangeEvent], focused := True, selected := True,
           clipboardButton := True\<rparr>
   \<and> fillCalls (run uc (waitForWorkItem uc t exampleDialog emptyInput)
         ([Advance n, Mutate [exampleLink]] @ map Mutate regions)) = 1
   \<and> buildBranchName uc (js ''100'') (js ''Add login page'') = js ''feature/100-Add-Login-Page''"
proof -
  let ?s0 = "waitForWorkItem uc t exampleDialog emptyInput"
  let ?s1 = "run uc ?s0 [Advance n, Mutate [exampleLink]]"
  let ?filled = "emptyInput\<lparr>inputValue := js ''feature/100-Add-Login-Page'',
           dispatched := [InputEvent, ChangeEvent], focused := True, selected := True,
           clipboardButton := True\<rparr>"
  have 1: "handleBranchDialog uc t exampleDialog = Some ?s0"
    by (simp add: handleBranchDialog_def exampleDialog_def emptyInput_def trim_def)
  have 2: "inputValue (branchInput ?s0) = []"
    by (simp add: example_start) (simp add: emptyInput_def)
  have s1: "?s1 = \<lparr>dialog = exampleDialog\<lparr>extensionsRegion := Some [exampleLink]\<rparr>,
         branchInput = ?filled,
         settled = True, observing = False, timer = Some (t + 10000), now = t + n,
         fillCalls = 1\<rparr>"
  proof -
    have "?s1 = step uc (step uc ?s0 (Advance n)) (Mutate [exampleLink])"
      by (simp only: run_Cons run_Nil)
    also have "step uc ?s0 (Advance n)
        = \<lparr>dialog = exampleDialog, branchInput = emptyInput, settled = False,
           observing = True, timer = Some (t + 10000), now = t + n, fillCalls = 0\<rparr>"
      by (simp add: example_start)
    finally show ?thesis
      by (simp add: observerCallback_def exampleLink_parses example_fill)
  qed
  then have 3: "branchInput ?s1 = ?filled" and st: "settled ?s1" and f1: "fillCalls ?s1 = 1"
    by simp_all
  have 4: "branchInput (run uc ?s0 ([Advance n, Mutate [exampleLink]] @ map Mutate regions))
      = ?filled"
    using settled_mutations [OF st, of uc regions] 3 by (simp only: run_append)
  have 5: "fillCalls (run uc ?s0 ([Advance n, Mutate [exampleLink]] @ map Mutate regions)) = 1"
    using run_settled [OF st, of uc "map Mutate regions"] f1 by (simp only: run_append)
  have 6: "buildBranchName uc (js ''100'') (js ''Add login page'') = js ''feature/100-Add-Login-Page''"
    by (rule example_branch)
  from 1 2 3 4 5 6 show ?thesis by blast
qed

section \<open>The extractor: claims\<close>

text \<open>
  C6, as stated, fails. The text \<open>Bug 1: a\<close>, line feed, \<open>b\<close> is a word token, white
  space, digits, a colon, white space and free text, yet the extractor returns no
  match: the \<open>.\<close> of the regular expression does not match a line terminator.
\<close>

theorem extractor_multiline_counterexample:
  "specLinkText anyUnit (trim (js ''Bug 1: a'' @ [0x0A] @ js ''b'')) (js ''1'')
      (trim (js ''a'' @ [0x0A] @ js ''b''))
   \<and> getWorkItemFromDialog (linkWithText (js ''Bug 1: a'' @ [0x0A] @ js ''b'')) = None"
proof -
  have t: "trim (js ''Bug 1: a'' @ [0x0A] @ js ''b'')
      = js ''Bug'' @ js '' '' @ js ''1'' @ [0x3A] @ js '' '' @ (js ''a'' @ [0x0A] @ js ''b'')"
    by (simp add: js_def trim_def isSpace_def)
  have "specLinkText anyUnit
      (js ''Bug'' @ js '' '' @ js ''1'' @ [0x3A] @ js '' '' @ (js ''a'' @ [0x0A] @ js ''b''))
      (js ''1'') (trim (js ''a'' @ [0x0A] @ js ''b''))"
    unfolding specLinkText_def
    apply (rule exI [where x = "js ''Bug''"])
    apply (rule exI [where x = "js '' ''"])
    apply (rule exI [where x = "js '' ''"])
    apply (rule exI [where x = "js ''a'' @ [0x0A] @ js ''b''"])
    apply (simp add: js_def isWord_def isAlnum_def isSpace_def isDigit_def anyUnit_def)
    done
  then have a: "specLinkText anyUnit (trim (js ''Bug 1: a'' @ [0x0A] @ js ''b'')) (js ''1'')
      (trim (js ''a'' @ [0x0A] @ js ''b''))"
    by (simp only: t)
  have b: "getWorkItemFromDialog (linkWithText (js ''Bug 1: a'' @ [0x0A] @ js ''b'')) = None"
    by (simp add: match_eval)
  from a b show ?thesis ..
qed

text \<open>
  C6, amended. For the link that the extractor finds, it returns a record exactly when
  the trimmed link text is a word token, white space, digits, a colon, optional white
  space and a non-empty free text without line terminator; the identifier is the digit
  run and the label is the trimmed free text. Otherwise it returns no match.
  \<open>Bug 4821: Crash on save\<close> gives identifier \<open>4821\<close> and label \<open>Crash on save\<close>;
  \<open>Malformed line\<close> gives no match.
\<close>

theorem extractor_pattern:
  "(extensionsRegion d = Some region
    \<and> find (\<lambda>a. includesSub (js ''_workitems/edit/'') (href a)) region = Some link \<longrightarrow>
      (getWorkItemFromDialog d = Some wi
         \<longleftrightarrow> specLinkText isDot (trim (textContent link)) (item_id wi) (item_title wi))
      \<and> (getWorkItemFromDialog d = None
         \<longleftrightarrow> \<not> (\<exists>ident label. specLinkText isDot (trim (textContent link)) ident label)))
   \<and> getWorkItemFromDialog (linkWithText (js ''Bug 4821: Crash on save''))
       = Some \<lparr>item_id = js ''4821'', item_title = js ''Crash on save''\<rparr>
   \<and> getWorkItemFromDialog (linkWithText (js ''Malformed line'')) = None"
proof -
  have main: "(getWorkItemFromDialog d = Some wi
         \<longleftrightarrow> specLinkText isDot (trim (textContent link)) (item_id wi) (item_title wi))
      \<and> (getWorkItemFromDialog d = None
         \<longleftrightarrow> \<not> (\<exists>ident label. specLinkText isDot (trim (textContent link)) ident label))"
    if r: "extensionsRegion d = Some region"
      and l: "find (\<lambda>a. includesSub (js ''_workitems/edit/'') (href a)) region = Some link"
  proof -
    let ?t = "trim (textContent link)"
    have g: "getWorkItemFromDialog d =
        (case matchSeq linkTextPattern ?t of
           Some [m1, m2] \<Rightarrow> Some \<lparr>item_id = m1, item_title = trim m2\<rparr>
         | _ \<Rightarrow> None)"
      by (simp add: getWorkItemFromDialog_def r l)
    have fwd: "specLinkText isDot ?t (item_id wi) (item_title wi)"
      if "getWorkItemFromDialog d = Some wi" for wi
    proof -
      from that g obtain cs where m: "matchSeq linkTextPattern ?t = Some cs"
        by (cases "matchSeq linkTextPattern ?t") auto
      from linkTextPattern_sound [OF m] obtain ident ft
        where cs: "cs = [ident, ft]" and sp: "specLinkText isDot ?t ident (trim ft)"
        by blast
      from that g m cs have "wi = \<lparr>item_id = ident, item_title = trim ft\<rparr>"
        by simp
      with sp show ?thesis by simp
    qed
    have bwd: "getWorkItemFromDialog d = Some \<lparr>item_id = ident, item_title = label\<rparr>"
      if "specLinkText isDot ?t ident label" for ident label
    proof -
      from linkTextPattern_complete [OF that] obtain ft
        where "matchSeq linkTextPattern ?t = Some [ident, ft]" "trim ft = label"
        by blast
      then show ?thesis by (simp add: g)
    qed
    have 1: "getWorkItemFromDialog d = Some wi
        \<longleftrightarrow> specLinkText isDot ?t (item_id wi) (item_title wi)"
    proof
      assume "getWorkItemFromDialog d = Some wi"
      then show "specLinkText isDot ?t (item_id wi) (item_title wi)" by (rule fwd)
    next
      assume "specLinkText isDot ?t (item_id wi) (item_title wi)"
      from bwd [OF this] show "getWorkItemFromDialog d = Some wi" by simp
    qed
    have 2: "getWorkItemFromDialog d = None
        \<longleftrightarrow> \<not> (\<exists>ident label. specLinkText isDot ?t ident label)"
    proof
      assume n: "getWorkItemFromDialog d = None"
      show "\<not> (\<exists>ident label. specLinkText isDot ?t ident label)"
      proof
        assume "\<exists>ident label. specLinkText isDot ?t ident label"
        then obtain ident label where "specLinkText isDot ?t ident label" by blast
        from bwd [OF this] n show False by simp
      qed
    next
      assume n: "\<not> (\<exists>ident label. specLinkText isDot ?t ident label)"
      show "getWorkItemFromDialog d = None"
      proof (cases "getWorkItemFromDialog d")
        case None
        then show ?thesis .
      next
        case (Some wi)
        from fwd [OF this] n show ?thesis by blast
      qed
    qed
    from 1 2 show ?thesis ..
  qed
  have lit1: "getWorkItemFromDialog (linkWithText (js ''Bug 4821: Crash on save''))
       = Some \<lparr>item_id = js ''4821'', item_title = js ''Crash on save''\<rparr>"
    by (simp add: match_eval)
  have lit2: "getWorkItemFromDialog (linkWithText (js ''Malformed line'')) = None"
    by (simp add: match_eval)
  from main lit1 lit2 show ?thesis by blast
qed

theorem extractor_pattern_witness:
  "extensionsRegion (linkWithText (js ''Bug 4821: Crash on save''))
     = Some [\<lparr>href = js ''/proj/_workitems/edit/1'', textContent = js ''Bug 4821: Crash on save''\<rparr>]
   \<and> find (\<lambda>a. includesSub (js ''_workitems/edit/'') (href a))
        [\<lparr>href = js ''/proj/_workitems/edit/1'', textContent = js ''Bug 4821: Crash on save''\<rparr>]
     = Some \<lparr>href = js ''/proj/_workitems/edit/1'', textContent = js ''Bug 4821: Crash on save''\<rparr>
   \<and> specLinkText isDot (trim (js ''Bug 4821: Crash on save'')) (js ''4821'') (js ''Crash on save'')"
proof -
  let ?link = "\<lparr>href = js ''/proj/_workitems/edit/1'', textContent = js ''Bug 4821: Crash on save''\<rparr>"
  let ?wi = "\<lparr>item_id = js ''4821'', item_title = js ''Crash on save''\<rparr>"
  have a: "extensionsRegion (linkWithText (js ''Bug 4821: Crash on save'')) = Some [?link]"
    by (simp add: linkWithText_def)
  have b: "find (\<lambda>a. includesSub (js ''_workitems/edit/'') (href a)) [?link] = Some ?link"
    by (simp add: js_def)
  note e = extractor_pattern [of "linkWithText (js ''Bug 4821: Crash on save'')" "[?link]" ?link ?wi]
  from e have c: "getWorkItemFromDialog (linkWithText (js ''Bug 4821: Crash on save'')) = Some ?wi"
    by blast
  from e a b c have "specLinkText isDot (trim (textContent ?link)) (item_id ?wi) (item_title ?wi)"
    by blast
  then have d: "specLinkText isDot (trim (js ''Bug 4821: Crash on save'')) (js ''4821'')
      (js ''Crash on save'')"
    by simp
  from a b d show ?thesis by blast
qed

section \<open>The waiter: content present at the start\<close>

text \<open>
  C7. When matching content is there as \<open>waitForWorkItem\<close> starts, the fill happens in
  that call: \<open>fillBranchName\<close> has run once on return, an empty field holds the branch
  name, and no observer and no timer exist then or after any later events.
\<close>

theorem waiter_immediate:
  "getWorkItemFromDialog d = Some wi \<longrightarrow>
     branchInput (waitForWorkItem uc t d inp) = fillBranchName uc inp wi
     \<and> fillCalls (waitForWorkItem uc t d inp) = 1
     \<and> now (waitForWorkItem uc t d inp) = t
     \<and> \<not> observing (waitForWorkItem uc t d inp)
     \<and> timer (waitForWorkItem uc t d inp) = None
     \<and> (trim (inputValue inp) = [] \<longrightarrow>
          inputValue (branchInput (waitForWorkItem uc t d inp))
            = buildBranchName uc (item_id wi) (item_title wi))
     \<and> \<not> observing (run uc (waitForWorkItem uc t d inp) es)
     \<and> timer (run uc (waitForWorkItem uc t d inp) es) = None
     \<and> fillCalls (run uc (waitForWorkItem uc t d inp) es) = 1"
proof
  assume m: "getWorkItemFromDialog d = Some wi"
  let ?s = "waitForWorkItem uc t d inp"
  have s: "?s = \<lparr>dialog = d, branchInput = fillBranchName uc inp wi, settled = False,
           observing = False, timer = None, now = t, fillCalls = 1\<rparr>"
    by (simp add: waitForWorkItem_def m)
  have idle: "\<not> observing ?s \<and> timer ?s = None \<and> fillCalls ?s = 1"
    by (simp add: s)
  have v: "inputValue (fillBranchName uc inp wi) = buildBranchName uc (item_id wi) (item_title wi)"
    if "trim (inputValue inp) = []"
    using that by (simp add: fillBranchName_def setInputValue_def addCopyButton_def)
  have later: "\<not> observing (run uc ?s es) \<and> timer (run uc ?s es) = None
      \<and> fillCalls (run uc ?s es) = 1"
    using idle by (rule run_idle)
  from later v show "branchInput ?s = fillBranchName uc inp wi
     \<and> fillCalls ?s = 1 \<and> now ?s = t \<and> \<not> observing ?s \<and> timer ?s = None
     \<and> (trim (inputValue inp) = [] \<longrightarrow>
          inputValue (branchInput ?s) = buildBranchName uc (item_id wi) (item_title wi))
     \<and> \<not> observing (run uc ?s es) \<and> timer (run uc ?s es) = None
     \<and> fillCalls (run uc ?s es) = 1"
    by (simp add: s)
qed

theorem waiter_immediate_witness:
  "getWorkItemFromDialog (exampleDialog\<lparr>extensionsRegion := Some [exampleLink]\<rparr>)
     = Some \<lparr>item_id = js ''100'', item_title = js ''Add login page''\<rparr>
   \<and> trim (inputValue emptyInput) = []
   \<and> inputValue (branchInput (waitForWorkItem asciiOnly 0
         (exampleDialog\<lparr>extensionsRegion := Some [exampleLink]\<rparr>) emptyInput))
       = js ''feature/100-Add-Login-Page''
   \<and> fillCalls (run asciiOnly (waitForWorkItem asciiOnly 0
         (exampleDialog\<lparr>extensionsRegion := Some [exampleLink]\<rparr>) emptyInput)
         [Mutate [], Advance 10000, TimerFires]) = 1"
proof -
  let ?d = "exampleDialog\<lparr>extensionsRegion := Some [exampleLink]\<rparr>"
  let ?wi = "\<lparr>item_id = js ''100'', item_title = js ''Add login page''\<rparr>"
  have a: "getWorkItemFromDialog ?d = Some ?wi"
    by (rule exampleLink_parses)
  have b: "trim (inputValue emptyInput) = []"
    by (simp add: emptyInput_def trim_def)
  note w = waiter_immediate [of ?d ?wi asciiOnly 0 emptyInput
      "[Mutate [], Advance 10000, TimerFires]"]
  from w a b have "inputValue (branchInput (waitForWorkItem asciiOnly 0 ?d emptyInput))
      = buildBranchName asciiOnly (item_id ?wi) (item_title ?wi)"
    by blast
  then have c: "inputValue (branchInput (waitForWorkItem asciiOnly 0 ?d emptyInput))
      = js ''feature/100-Add-Login-Page''"
    by (simp add: example_branch)
  from w a have d: "fillCalls (run asciiOnly (waitForWorkItem asciiOnly 0 ?d emptyInput)
         [Mutate [], Advance 10000, TimerFires]) = 1"
    by blast
  from a b c d show ?thesis by blast
qed

section \<open>The formatter: character set and idempotence\<close>

text \<open>
  C8. For every title, the result of \<open>formatTitle\<close> consists of ASCII letters, ASCII
  digits and hyphens only, and the hyphens are separators: the result is a list of
  non-empty alphanumeric words joined by single hyphens.
\<close>

theorem formatTitle_charset:
  "list_all (\<lambda>c. isAlnum c \<or> c = hyphen) (formatTitle uc title)
   \<and> (\<exists>ws. list_all cleanWord ws \<and> formatTitle uc title = join (js ''-'') ws)"
proof -
  let ?ws = "map (capitalize uc) (titleWords title)"
  have clean: "list_all cleanWord ?ws"
    by (simp add: list_all_iff capitalize_clean titleWords_clean)
  then have "\<forall>c\<in>set (join (js ''-'') ?ws). isAlnum c \<or> c = hyphen"
    using join_clean_chars by blast
  then have "list_all (\<lambda>c. isAlnum c \<or> c = hyphen) (formatTitle uc title)"
    by (simp only: formatTitle_words list_all_iff)
  moreover have "formatTitle uc title = join (js ''-'') ?ws"
    by (rule formatTitle_words)
  ultimately show ?thesis
    using clean by blast
qed

text \<open>
  C9. \<open>formatTitle\<close> is idempotent: formatting a formatted title changes nothing.
\<close>

theorem formatTitle_idempotent:
  "formatTitle uc (formatTitle uc s) = formatTitle uc s"
proof -
  let ?ws = "map (capitalize uc) (titleWords s)"
  have clean: "list_all cleanWord ?ws"
    by (simp add: list_all_iff capitalize_clean titleWords_clean)
  have "titleWords (join (js ''-'') ?ws) = ?ws"
    using clean by (rule titleWords_join_clean)
  moreover have "map (capitalize uc) ?ws = ?ws"
    by (simp add: capitalize_clean titleWords_clean)
  ultimately show ?thesis
    by (simp only: formatTitle_words)
qed

section \<open>The branch name of an empty title\<close>

text \<open>
  C10. \<open>buildBranchName\<close> always emits the prefix, the id, a hyphen and the formatted
  title. When the formatted title is empty, which is so for every title without a
  letter or digit, the result is prefix, id and a trailing hyphen, and that is the
  value \<open>fillBranchName\<close> writes into an empty field; for id \<open>123\<close> it is
  \<open>feature/123-\<close>.
\<close>

theorem buildBranchName_empty_title:
  "buildBranchName uc ident title = js ''feature/'' @ ident @ js ''-'' @ formatTitle uc title
   \<and> (formatTitle uc title = [] \<longrightarrow>
        buildBranchName uc ident title = js ''feature/'' @ ident @ js ''-''
        \<and> (trim (inputValue inp) = [] \<longrightarrow>
             inputValue (fillBranchName uc inp \<lparr>item_id = ident, item_title = title\<rparr>)
               = js ''feature/'' @ ident @ js ''-''))
   \<and> (list_all (\<lambda>c. \<not> isAlnum c) title \<longrightarrow> formatTitle uc title = [])
   \<and> buildBranchName uc (js ''123'') (js ''?! ...'') = js ''feature/123-''"
proof -
  have 1: "buildBranchName uc ident title = js ''feature/'' @ ident @ js ''-'' @ formatTitle uc title"
    by (simp add: buildBranchName_def BRANCH_PREFIX_def)
  have 2: "inputValue (fillBranchName uc inp \<lparr>item_id = ident, item_title = title\<rparr>)
      = buildBranchName uc ident title" if "trim (inputValue inp) = []"
    using that by (simp add: fillBranchName_def setInputValue_def addCopyButton_def)
  have 3: "list_all (\<lambda>c. \<not> isAlnum c) title \<longrightarrow> formatTitle uc title = []"
    by (simp add: formatTitle_no_alnum)
  have 4: "buildBranchName uc (js ''123'') (js ''?! ...'') = js ''feature/123-''"
    by (simp add: fmt_eval)
  from 1 2 3 4 show ?thesis by simp
qed

theorem buildBranchName_empty_title_witness:
  "formatTitle asciiOnly (js ''?! ...'') = []
   \<and> trim [] = []
   \<and> list_all (\<lambda>c. \<not> isAlnum c) (js ''?! ...'')
   \<and> inputValue (fillBranchName asciiOnly
        \<lparr>inputValue = [], dispatched = [], focused = False, selected = False,
         flexColumn = True, boltTextfield = True, clipboardButton = False\<rparr>
        \<lparr>item_id = js ''123'', item_title = js ''?! ...''\<rparr>) = js ''feature/123-''"
proof -
  have a: "list_all (\<lambda>c. \<not> isAlnum c) (js ''?! ...'')"
    by (simp add: js_def isAlnum_def)
  have b: "trim [] = []"
    by (simp add: trim_def)
  note t = buildBranchName_empty_title [of asciiOnly "js ''123''" "js ''?! ...''"
        "\<lparr>inputValue = [], dispatched = [], focused = False, selected = False,
         flexColumn = True, boltTextfield = True, clipboardButton = False\<rparr>"]
  from t a have c: "formatTitle asciiOnly (js ''?! ...'') = []"
    by blast
  from t c b have "inputValue (fillBranchName asciiOnly
        \<lparr>inputValue = [], dispatched = [], focused = False, selected = False,
         flexColumn = True, boltTextfield = True, clipboardButton = False\<rparr>
        \<lparr>item_id = js ''123'', item_title = js ''?! ...''\<rparr>) = js ''feature/123-''"
    by (simp add: js_def)
  with a b c show ?thesis by blast
qed

end
